theory Spec2Isabelle
  imports Main "HOL-Library.Word"
begin

section \<open>The router of paprika: pages, history and the frame loop\<close>

subsection \<open>Pages, faults and the trace of calls\<close>

text \<open>
  A value of the Go interface \<open>Page\<close> is either nil or a reference to a page object.
  Page objects are identified by a number (their identity as a pointer): \<open>None\<close> is the
  nil interface value, \<open>Some n\<close> is page object \<open>n\<close>. Pushing the same object twice puts
  the same \<open>Some n\<close> twice into the history. (An interface value that holds a nil pointer
  is not nil for the tests \<open>page == nil\<close>; it counts as a page object.)
\<close>

type_synonym page = "nat option"

text \<open>
  The bodies of \<open>Mount\<close>, \<open>Unmount\<close>, \<open>Update\<close> and \<open>Draw\<close> belong to the application,
  and the drawing brackets to raylib. What the router does to them is the sequence of
  calls it makes, recorded in a trace, oldest call first.
\<close>

datatype event = Mount nat | Unmount nat | Update nat | Draw nat | BeginDrawing | EndDrawing

text \<open>The one run-time panic the router's own code can raise: a slice expression
  \<open>s[1:]\<close> on a slice of length 0 (slice bounds out of range [1:0]).\<close>

datatype fault = SliceBoundsOutOfRange

subsection \<open>The context\<close>

text \<open>
  Values stored in the context have type \<open>interface{}\<close>: \<open>None\<close> is nil, which is also
  what \<open>Value\<close> answers for a key that is not bound.

  \<open>context.Context\<close> is the standard library's. Three shapes matter here:
  \<open>context.Background()\<close>, which binds nothing; a context handed in through
  \<open>WithContext\<close>, known only by what its \<open>Value\<close> method answers for string keys; and the
  \<open>valueCtx\<close> node that \<open>context.WithValue(parent, key, val)\<close> builds, whose \<open>Value\<close>
  answers \<open>val\<close> for its own key and asks the parent otherwise. The nil \<open>Context\<close>, which
  the package forbids passing, is left out.
\<close>

type_synonym any = "nat option"

datatype "context" =
    backgroundCtx
  | suppliedCtx "string \<Rightarrow> any"
  | valueCtx "context" string any

fun Value :: "context \<Rightarrow> string \<Rightarrow> any" where
  "Value backgroundCtx k = None"
| "Value (suppliedCtx f) k = f k"
| "Value (valueCtx parent key val) k = (if key = k then val else Value parent k)"

subsection \<open>The Router struct and its construction\<close>

text \<open>\<open>history\<close> is a Go \<open>uint\<close>, 64 bits wide on the usual platforms.\<close>

record Router =
  ctx :: "context"
  defaultPage :: page
  history :: "64 word"
  pageHistory :: "page list"

definition DefaultHistory :: "64 word" where
  "DefaultHistory = 10"

type_synonym RouterOption = "Router \<Rightarrow> Router"

definition WithHistory :: "64 word \<Rightarrow> RouterOption" where
  "WithHistory recordedHistory = (\<lambda>r. r\<lparr>history := recordedHistory\<rparr>)"

definition WithContext :: "context \<Rightarrow> RouterOption" where
  "WithContext c = (\<lambda>r. r\<lparr>ctx := c\<rparr>)"

definition WithDefaultPage :: "page \<Rightarrow> RouterOption" where
  "WithDefaultPage page = (\<lambda>r. r\<lparr>defaultPage := page\<rparr>)"

definition NewRouter :: "RouterOption list \<Rightarrow> Router" where
  "NewRouter options =
     fold (\<lambda>option r. option r) options
       \<lparr>ctx = backgroundCtx, defaultPage = None, history = DefaultHistory, pageHistory = []\<rparr>"

subsection \<open>Shared context accessors\<close>

definition CtxSetValue :: "string \<Rightarrow> any \<Rightarrow> Router \<Rightarrow> Router" where
  "CtxSetValue key val r = r\<lparr>ctx := valueCtx (ctx r) key val\<rparr>"

definition CtxValue :: "string \<Rightarrow> Router \<Rightarrow> any" where
  "CtxValue key r = Value (ctx r) key"

text \<open>A sequence of \<open>CtxSetValue\<close> calls, first call first.\<close>

fun CtxSetValues :: "(string \<times> any) list \<Rightarrow> Router \<Rightarrow> Router" where
  "CtxSetValues [] r = r"
| "CtxSetValues ((key, val) # kvs) r = CtxSetValues kvs (CtxSetValue key val r)"

subsection \<open>Lifecycle dispatch (page.go)\<close>

text \<open>
  The state the router's methods work on: the struct and the trace of calls made so far.
  A call of \<open>Mount\<close>, \<open>Unmount\<close> or \<open>Draw\<close> is recorded; its body is taken not to call back
  into the router. \<open>Update\<close> may call back (see below).
\<close>

type_synonym state = "Router \<times> event list"

fun mountPage :: "page \<Rightarrow> state \<Rightarrow> state" where
  "mountPage None (r, tr) = (r, tr)"
| "mountPage (Some p) (r, tr) = (r, tr @ [Mount p])"

fun unmountPage :: "page \<Rightarrow> state \<Rightarrow> state" where
  "unmountPage None (r, tr) = (r, tr)"
| "unmountPage (Some p) (r, tr) = (r, tr @ [Unmount p])"

fun drawPage :: "page \<Rightarrow> state \<Rightarrow> state" where
  "drawPage None (r, tr) = (r, tr)"
| "drawPage (Some p) (r, tr) = (r, tr @ [Draw p])"

subsection \<open>Push, Pop and current\<close>

text \<open>The slice expression \<open>s[1:]\<close>: it panics when \<open>len(s) = 0\<close>.\<close>

definition slice_from_1 :: "'a list \<Rightarrow> fault + 'a list" where
  "slice_from_1 s = (if 1 \<le> length s then Inr (drop 1 s) else Inl SliceBoundsOutOfRange)"

text \<open>
  \<open>Push\<close>: the comparison \<open>len(r.pageHistory) >= int(r.history)\<close> is between signed
  integers, \<open>int(r.history)\<close> being the two's complement reading of the \<open>uint\<close>.
\<close>

fun Push :: "page \<Rightarrow> state \<Rightarrow> fault + state" where
  "Push page (r, tr) =
     (case (if sint (history r) \<le> int (length (pageHistory r))
            then slice_from_1 (pageHistory r) else Inr (pageHistory r)) of
        Inl f \<Rightarrow> Inl f
      | Inr ph \<Rightarrow>
          (case (if length ph \<noteq> 0
                 then unmountPage (last ph) (r\<lparr>pageHistory := ph\<rparr>, tr)
                 else (r\<lparr>pageHistory := ph\<rparr>, tr)) of
             (r1, tr1) \<Rightarrow> Inr (mountPage page (r1\<lparr>pageHistory := pageHistory r1 @ [page]\<rparr>, tr1))))"

fun Pop :: "state \<Rightarrow> page \<times> state" where
  "Pop (r, tr) =
     (if length (pageHistory r) = 0 then (None, (r, tr))
      else
        (let lastPage = last (pageHistory r) in
         case unmountPage lastPage (r, tr) of
           (r1, tr1) \<Rightarrow>
             (let r2 = r1\<lparr>pageHistory := take (length (pageHistory r1) - 1) (pageHistory r1)\<rparr> in
              if length (pageHistory r2) = 0 then (None, (r2, tr1))
              else (lastPage, mountPage (last (pageHistory r2)) (r2, tr1)))))"

definition current :: "Router \<Rightarrow> page" where
  "current r = (if length (pageHistory r) = 0 then None else last (pageHistory r))"

subsection \<open>Update: pages that navigate\<close>

text \<open>
  A page's \<open>Update\<close> may call the router's exported methods, as the example page does
  (\<open>r.Push\<close> on the right key, \<open>r.Pop\<close> on the left key). What page \<open>p\<close> does in one call
  of \<open>Update\<close> is given by a program: from the state at the call, the router calls it
  makes, in order. A panic in one of them ends \<open>Update\<close> with that panic.
\<close>

datatype call = CallPush page | CallPop | CallCtxSetValue string any

type_synonym program = "nat \<Rightarrow> state \<Rightarrow> call list"

fun do_call :: "call \<Rightarrow> state \<Rightarrow> fault + state" where
  "do_call (CallPush page) s = Push page s"
| "do_call CallPop s = Inr (snd (Pop s))"
| "do_call (CallCtxSetValue key val) (r, tr) = Inr (CtxSetValue key val r, tr)"

fun do_calls :: "call list \<Rightarrow> state \<Rightarrow> fault + state" where
  "do_calls [] s = Inr s"
| "do_calls (c # cs) s = (case do_call c s of Inl f \<Rightarrow> Inl f | Inr s' \<Rightarrow> do_calls cs s')"

fun updatePage :: "program \<Rightarrow> page \<Rightarrow> state \<Rightarrow> fault + state" where
  "updatePage prog None (r, tr) = Inr (r, tr)"
| "updatePage prog (Some p) (r, tr) = do_calls (prog p (r, tr)) (r, tr @ [Update p])"

subsection \<open>Run\<close>

text \<open>
  The tail of the loop body: update the current page, then draw it between
  \<open>rl.BeginDrawing()\<close> and \<open>rl.EndDrawing()\<close>.
\<close>

definition Run_frame :: "program \<Rightarrow> page \<Rightarrow> state \<Rightarrow> fault + state" where
  "Run_frame prog currentPage s =
     (case updatePage prog currentPage s of
        Inl f \<Rightarrow> Inl f
      | Inr (r1, tr1) \<Rightarrow>
          (case drawPage currentPage (r1, tr1 @ [BeginDrawing]) of
             (r2, tr2) \<Rightarrow> Inr (r2, tr2 @ [EndDrawing])))"

text \<open>The \<open>default:\<close> branch of the select, one iteration of the loop.\<close>

definition Run_iteration :: "program \<Rightarrow> state \<Rightarrow> fault + state" where
  "Run_iteration prog s =
     (case s of (r, tr) \<Rightarrow>
        (let currentPage = current r in
         if currentPage = None then
           (if defaultPage r \<noteq> None then
              (case Push (defaultPage r) (r, tr) of
                 Inl f \<Rightarrow> Inl f
               | Inr s1 \<Rightarrow> Run_frame prog (defaultPage r) s1)
            else Inr (r, tr))
         else Run_frame prog currentPage (r, tr)))"

text \<open>
  The loop polls the outside world at the top of each iteration: first
  \<open>rl.WindowShouldClose()\<close>, then, if the window stays open, whether \<open>r.ctx.Done()\<close> is
  ready. The answers of the outside world are given as a list, one pair per iteration.
  \<open>Run\<close> returns when one of them is true; when the list ends first the loop is still
  running, and the result says so (\<open>False\<close>) with the state reached.
\<close>

fun Run :: "program \<Rightarrow> (bool \<times> bool) list \<Rightarrow> state \<Rightarrow> fault + (bool \<times> state)" where
  "Run prog [] s = Inr (False, s)"
| "Run prog ((windowShouldClose, ctxDone) # polls) s =
     (if windowShouldClose then Inr (True, s)
      else if ctxDone then Inr (True, s)
      else (case Run_iteration prog s of
              Inl f \<Rightarrow> Inl f
            | Inr s' \<Rightarrow> Run prog polls s'))"

subsection \<open>Notions used to state the properties\<close>

text \<open>The retention bound: \<open>len(r.pageHistory) <= r.history\<close>, the limit read as the
  unsigned number it is.\<close>

definition bound_ok :: "Router \<Rightarrow> bool" where
  "bound_ok r = (length (pageHistory r) \<le> unat (history r))"

text \<open>A sequence of \<open>Push\<close> calls, first call first; the result lists the state after
  each call.\<close>

fun Pushes :: "page list \<Rightarrow> state \<Rightarrow> fault + state list" where
  "Pushes [] s = Inr []"
| "Pushes (page # pages) s =
     (case Push page s of
        Inl f \<Rightarrow> Inl f
      | Inr s' \<Rightarrow> (case Pushes pages s' of Inl f \<Rightarrow> Inl f | Inr ss \<Rightarrow> Inr (s' # ss)))"

text \<open>How many more times page \<open>p\<close> has been mounted than unmounted in a trace: \<open>p\<close> is
  mounted and not yet unmounted when this is positive.\<close>

fun live :: "event list \<Rightarrow> nat \<Rightarrow> int" where
  "live [] p = 0"
| "live (e # es) p =
     (if e = Mount p then 1 else if e = Unmount p then - 1 else 0) + live es p"

text \<open>The calls a dispatch on a page adds to the trace.\<close>

fun mounts :: "page \<Rightarrow> event list" where
  "mounts None = []"
| "mounts (Some p) = [Mount p]"

fun unmounts :: "page \<Rightarrow> event list" where
  "unmounts None = []"
| "unmounts (Some p) = [Unmount p]"

text \<open>Events by kind: a \<open>Draw\<close> call, and the calls \<open>Push\<close> and \<open>Pop\<close> make.\<close>

fun is_Draw :: "event \<Rightarrow> bool" where
  "is_Draw (Draw p) = True"
| "is_Draw e = False"

fun is_lifecycle :: "event \<Rightarrow> bool" where
  "is_lifecycle (Mount p) = True"
| "is_lifecycle (Unmount p) = True"
| "is_lifecycle e = False"

text \<open>Exclusive mounting: the page on top of the history is mounted once more than it is
  unmounted, every other page as often as it is unmounted.\<close>

definition exclusive :: "state \<Rightarrow> bool" where
  "exclusive s = (\<forall>p. live (snd s) p = (if current (fst s) = Some p then 1 else 0))"

section \<open>Properties\<close>

subsection \<open>Push and Pop in closed form\<close>

declare Push.simps [simp del] Pop.simps [simp del]

lemma sint_nonneg_unat:
  fixes h :: "64 word"
  assumes "0 \<le> sint h"
  shows "sint h = int (unat h)"
proof -
  have "sint h < 2 ^ 64"
    using sint_lt [of h] by simp
  with assms have "take_bit 64 (sint h) = sint h"
    by (simp add: take_bit_int_eq_self)
  then have "uint h = sint h"
    using uint_sint [of h] by simp
  then show ?thesis
    by (metis uint_nat)
qed

lemma mountPage_eq: "mountPage page (r, tr) = (r, tr @ mounts page)"
  by (cases page) simp_all

lemma unmountPage_eq: "unmountPage page (r, tr) = (r, tr @ unmounts page)"
  by (cases page) simp_all

lemma current_Nil [simp]: "current (r\<lparr>pageHistory := []\<rparr>) = None"
  by (simp add: current_def)

lemma current_snoc [simp]: "current (r\<lparr>pageHistory := ph @ [page]\<rparr>) = page"
  by (simp add: current_def)

text \<open>
  \<open>Push\<close> panics exactly when it has to evict from an empty history. Otherwise it keeps
  the history, less its oldest entry if it was full, unmounts the entry that is then last,
  appends the page and mounts it.
\<close>

lemma Push_eq:
  "Push page (r, tr) =
     (if sint (history r) \<le> int (length (pageHistory r)) \<and> pageHistory r = []
      then Inl SliceBoundsOutOfRange
      else Inr (r\<lparr>pageHistory :=
                    (if sint (history r) \<le> int (length (pageHistory r))
                     then drop 1 (pageHistory r) else pageHistory r) @ [page]\<rparr>,
                tr @ unmounts (current (r\<lparr>pageHistory :=
                         (if sint (history r) \<le> int (length (pageHistory r))
                          then drop 1 (pageHistory r) else pageHistory r)\<rparr>))
                   @ mounts page))"
  by (cases "pageHistory r")
     (simp_all add: Push.simps slice_from_1_def mountPage_eq unmountPage_eq current_def)

lemma Pop_Nil: "pageHistory r = [] \<Longrightarrow> Pop (r, tr) = (None, r, tr)"
  by (simp add: Pop.simps)

lemma Pop_single:
  "pageHistory r = [page] \<Longrightarrow>
   Pop (r, tr) = (None, r\<lparr>pageHistory := []\<rparr>, tr @ unmounts page)"
  by (simp add: Pop.simps unmountPage_eq)

lemma Pop_more:
  "pageHistory r = ph @ [below, page] \<Longrightarrow>
   Pop (r, tr) = (page, r\<lparr>pageHistory := ph @ [below]\<rparr>, tr @ unmounts page @ mounts below)"
  by (simp add: Pop.simps unmountPage_eq mountPage_eq Let_def butlast_append
      flip: butlast_conv_take)

lemma list_shape: "xs = [] \<or> (\<exists>x. xs = [x]) \<or> (\<exists>ys y x. xs = ys @ [y, x])"
proof (cases xs rule: rev_cases)
  case Nil
  then show ?thesis by simp
next
  case (snoc ys x)
  then show ?thesis by (cases ys rule: rev_cases) auto
qed

subsection \<open>Pop on a history of one entry\<close>

text \<open>
  C1. The claim: on a non-empty history \<open>Pop\<close> returns the page it removed, also when the
  removal empties the history. The code: on a history of exactly one entry \<open>Pop\<close>
  unmounts and removes the entry and then returns nil, not the removed page.
\<close>

theorem Pop_single_entry_returns_nil:
  "Pop (r\<lparr>pageHistory := [Some p]\<rparr>, tr)
     = (None, r\<lparr>pageHistory := []\<rparr>, tr @ [Unmount p])"
  by (simp add: Pop_single)

text \<open>With two or more entries the removed page is returned, and the entry below it is
  mounted again.\<close>

lemma Pop_returns_removed:
  "Pop (r\<lparr>pageHistory := ph @ [below, Some p]\<rparr>, tr)
     = (Some p, r\<lparr>pageHistory := ph @ [below]\<rparr>, tr @ Unmount p # mounts below)"
  by (simp add: Pop_more)

subsection \<open>The retention bound\<close>

lemma Push_bound:
  assumes "0 < sint (history r)" and "bound_ok r"
  shows "\<exists>r' tr'. Push page (r, tr) = Inr (r', tr') \<and> bound_ok r' \<and> history r' = history r"
proof -
  have "sint (history r) = int (unat (history r))"
    using assms(1) by (simp add: sint_nonneg_unat)
  then have full: "sint (history r) \<le> int (length (pageHistory r))
      \<longleftrightarrow> unat (history r) \<le> length (pageHistory r)"
    and pos: "0 < unat (history r)"
    using assms(1) by linarith+
  show ?thesis
    using assms(2) pos by (auto simp add: Push_eq full bound_ok_def)
qed

lemma Pushes_bound:
  assumes "0 < sint (history r)" and "bound_ok r"
  shows "\<exists>ss. Pushes pages (r, tr) = Inr ss \<and> length ss = length pages
            \<and> list_all (\<lambda>s. bound_ok (fst s) \<and> history (fst s) = history r) ss"
  using assms
proof (induction pages arbitrary: r tr)
  case Nil
  then show ?case by simp
next
  case (Cons page pages)
  from Push_bound [OF Cons.prems, of page tr]
  obtain r' tr' where p: "Push page (r, tr) = Inr (r', tr')" "bound_ok r'" "history r' = history r"
    by blast
  with Cons.prems have "0 < sint (history r')" by simp
  from Cons.IH [OF this p(2), of tr'] p
  show ?case by auto
qed

text \<open>A \<open>Push\<close> that returns keeps a history that was within the limit within the limit,
  at every limit.\<close>

lemma Push_preserves_bound:
  assumes "bound_ok r" and "Push page (r, tr) = Inr (r', tr')"
  shows "bound_ok r' \<and> history r' = history r"
proof (cases "0 \<le> sint (history r)")
  case True
  then have "sint (history r) = int (unat (history r))"
    by (rule sint_nonneg_unat)
  then have full: "sint (history r) \<le> int (length (pageHistory r))
      \<longleftrightarrow> unat (history r) \<le> length (pageHistory r)"
    by linarith
  from assms show ?thesis
    by (auto simp add: Push_eq full bound_ok_def split: if_splits)
next
  case False
  then have "sint (history r) \<le> int (length (pageHistory r))"
    by linarith
  with assms show ?thesis
    by (cases "pageHistory r") (auto simp add: Push_eq bound_ok_def split: if_splits)
qed

text \<open>
  For a limit from 1 to \<open>2^63 - 1\<close> (the limits that \<open>int(r.history)\<close> reads as a positive
  number) and a router whose history is within the limit, as the one \<open>NewRouter\<close> builds
  is: every \<open>Push\<close> of any sequence of \<open>Push\<close> calls completes, and the history is within
  the limit after each of them.
\<close>

lemma Pushes_keep_bound:
  assumes "0 < sint (history r)" and "bound_ok r"
  shows "\<exists>ss. Pushes pages (r, tr) = Inr ss \<and> length ss = length pages
            \<and> list_all (\<lambda>s. bound_ok (fst s)) ss"
proof -
  from Pushes_bound [OF assms, of pages tr]
  obtain ss where ss: "Pushes pages (r, tr) = Inr ss" "length ss = length pages"
    "list_all (\<lambda>s. bound_ok (fst s) \<and> history (fst s) = history r) ss"
    by blast
  from ss(3) have "list_all (\<lambda>s. bound_ok (fst s)) ss"
    by (simp add: list_all_iff)
  with ss(1,2) show ?thesis by blast
qed

lemma Pushes_keep_bound_example:
  "0 < sint (history (NewRouter [WithHistory 2])) \<and> bound_ok (NewRouter [WithHistory 2])
   \<and> (\<exists>ss. Pushes [Some 0, Some 1, Some 2] (NewRouter [WithHistory 2], []) = Inr ss
          \<and> length ss = length [Some 0, Some 1, Some (2 :: nat)]
          \<and> list_all (\<lambda>s. bound_ok (fst s)) ss)"
proof -
  have h: "0 < sint (history (NewRouter [WithHistory 2]))"
    by (simp add: NewRouter_def WithHistory_def)
  have b: "bound_ok (NewRouter [WithHistory 2])"
    by (simp add: NewRouter_def WithHistory_def bound_ok_def)
  show ?thesis
    using h b Pushes_keep_bound [OF h b, of "[Some 0, Some 1, Some 2]" "[]"] by blast
qed

text \<open>
  C2. The claim: after each \<open>Push\<close> of any sequence of \<open>Push\<close> calls the history is no
  longer than the limit, for every limit including 0, the oldest entry being evicted
  before the insertion. The comments on the \<open>history\<close> field and on \<open>WithHistory\<close> make 0
  a legal limit, with which the router keeps no history. The code: on a router built
  with \<open>WithHistory(0)\<close> the first \<open>Push\<close> of any sequence panics in the eviction
  (\<open>r.pageHistory[1:]\<close> on the empty history), so at limit 0 there is no state after a
  \<open>Push\<close> in which the bound could hold: the sequence ends in the panic. For limits from
  1 to \<open>2^63 - 1\<close> the bound holds after each \<open>Push\<close> (the two lemmas above).
\<close>

theorem Pushes_limit_0_faults:
  "Pushes (page # pages) (NewRouter [WithHistory 0], []) = Inl SliceBoundsOutOfRange"
  by (simp add: Push_eq NewRouter_def WithHistory_def)

subsection \<open>Push at limit 1 and at limit 0\<close>

text \<open>
  C3. The claim: a \<open>Push\<close> into a non-empty history, for every limit from 1 on, calls
  \<open>Unmount\<close> on the entry that was last before it calls \<open>Mount\<close> on the new page. The
  code: at limit 1 with one entry in the history, the eviction removes that entry, which
  is the active page, before the unmount step looks for a last entry; the active page
  gets no \<open>Unmount\<close>, and the only call made is the \<open>Mount\<close> of the new page.
\<close>

theorem Push_limit_1_skips_Unmount:
  "Push (Some q) (r\<lparr>history := 1, pageHistory := [Some p]\<rparr>, tr)
     = Inr (r\<lparr>history := 1, pageHistory := [Some q]\<rparr>, tr @ [Mount q])"
  by (simp add: Push_eq)

text \<open>Where the entry that was last survives the eviction (the history has two or more
  entries, or room for one more), it is unmounted, and then the new page is mounted.\<close>

lemma Push_Unmount_before_Mount:
  assumes "pageHistory r = ph @ [Some p]"
    and "ph \<noteq> [] \<or> int (length (pageHistory r)) < sint (history r)"
  shows "Push (Some q) (r, tr)
           = Inr (r\<lparr>pageHistory :=
                       (if sint (history r) \<le> int (length (pageHistory r)) then drop 1 ph else ph)
                       @ [Some p, Some q]\<rparr>,
                  tr @ [Unmount p, Mount q])"
proof (cases "sint (history r) \<le> int (length (pageHistory r))")
  case True
  with assms obtain x xs where "ph = x # xs"
    by (cases ph) auto
  with assms(1) True show ?thesis
    by (simp add: Push_eq)
next
  case False
  with assms(1) show ?thesis
    by (simp add: Push_eq)
qed

text \<open>
  C5. The claim: with limit 0 \<open>Push\<close> is legal and completes without error. The code:
  with limit 0 the history of a new router is empty and stays so, and \<open>Push\<close> on the empty
  history evaluates \<open>r.pageHistory[1:]\<close> on a slice of length 0, which panics.
\<close>

theorem Push_limit_0_faults:
  "Push page (r\<lparr>history := 0, pageHistory := []\<rparr>, tr) = Inl SliceBoundsOutOfRange"
  by (simp add: Push_eq)

subsection \<open>Exclusive mounting\<close>

lemma live_append [simp]: "live (xs @ ys) p = live xs p + live ys p"
  by (induction xs) simp_all

lemma live_mounts: "live (mounts page) p = (if page = Some p then 1 else 0)"
  by (cases page) auto

lemma live_unmounts: "live (unmounts page) p = (if page = Some p then - 1 else 0)"
  by (cases page) auto

lemma current_last: "pageHistory r \<noteq> [] \<Longrightarrow> current r = last (pageHistory r)"
  by (simp add: current_def)

lemma Push_exclusive:
  assumes "2 \<le> sint (history r)" and "exclusive (r, tr)"
  shows "\<exists>r' tr'. Push page (r, tr) = Inr (r', tr') \<and> exclusive (r', tr') \<and> history r' = history r"
proof -
  let ?keep = "if sint (history r) \<le> int (length (pageHistory r))
               then drop 1 (pageHistory r) else pageHistory r"
  have cur: "current (r\<lparr>pageHistory := ?keep\<rparr>) = current r"
    using assms(1) by (cases "pageHistory r") (auto simp add: current_def)
  have "\<not> (sint (history r) \<le> int (length (pageHistory r)) \<and> pageHistory r = [])"
    using assms(1) by auto
  then have "Push page (r, tr) =
      Inr (r\<lparr>pageHistory := ?keep @ [page]\<rparr>, tr @ unmounts (current r) @ mounts page)"
    by (simp only: Push_eq cur if_False)
  moreover have "exclusive (r\<lparr>pageHistory := ?keep @ [page]\<rparr>, tr @ unmounts (current r) @ mounts page)"
    using assms(2) by (simp add: exclusive_def live_mounts live_unmounts del: One_nat_def)
  ultimately show ?thesis by simp
qed

lemma Pop_exclusive:
  assumes "exclusive (r, tr)"
  shows "exclusive (snd (Pop (r, tr))) \<and> history (fst (snd (Pop (r, tr)))) = history r"
proof -
  consider "pageHistory r = []" | x where "pageHistory r = [x]"
    | ys y x where "pageHistory r = ys @ [y, x]"
    using list_shape [of "pageHistory r"] by blast
  then show ?thesis
  proof cases
    case 1
    with assms show ?thesis by (simp add: Pop_Nil)
  next
    case 2
    with assms show ?thesis
      by (simp add: Pop_single exclusive_def live_unmounts current_def)
  next
    case 3
    with assms show ?thesis
      by (simp add: Pop_more exclusive_def live_unmounts live_mounts current_def)
  qed
qed

lemma do_call_exclusive:
  assumes "2 \<le> sint (history r)" and "exclusive (r, tr)"
  shows "\<exists>r' tr'. do_call c (r, tr) = Inr (r', tr') \<and> exclusive (r', tr') \<and> history r' = history r"
proof (cases c)
  case (CallPush page)
  then show ?thesis using Push_exclusive [OF assms] by simp
next
  case CallPop
  then show ?thesis using Pop_exclusive [OF assms(2)]
    by (cases "Pop (r, tr)") auto
next
  case (CallCtxSetValue key val)
  then show ?thesis using assms(2)
    by (simp add: exclusive_def CtxSetValue_def current_def)
qed

lemma do_calls_exclusive:
  assumes "2 \<le> sint (history r)" and "exclusive (r, tr)"
  shows "\<exists>r' tr'. do_calls cs (r, tr) = Inr (r', tr') \<and> exclusive (r', tr')"
  using assms
proof (induction cs arbitrary: r tr)
  case Nil
  then show ?case by simp
next
  case (Cons c cs)
  from do_call_exclusive [OF Cons.prems, of c]
  obtain r' tr' where c: "do_call c (r, tr) = Inr (r', tr')" "exclusive (r', tr')" "history r' = history r"
    by blast
  with Cons.prems have "2 \<le> sint (history r')" by simp
  from Cons.IH [OF this c(2)] c(1) show ?case by simp
qed

lemma exclusive_initial: "exclusive (r\<lparr>pageHistory := []\<rparr>, [])"
  by (simp add: exclusive_def)

text \<open>Under exclusive mounting two pages that are both mounted and not yet unmounted
  are one page, the current one.\<close>

lemma exclusive_at_most_one:
  assumes "exclusive (r, tr)" and "0 < live tr p" and "0 < live tr q"
  shows "p = q \<and> current r = Some p"
  using assms by (auto simp add: exclusive_def split: if_splits)

text \<open>
  C4. The claim: at every point of a sequence of \<open>Push\<close> and \<open>Pop\<close> at most one page is
  mounted and not yet unmounted, each page getting one \<open>Mount\<close> when it becomes active
  and one \<open>Unmount\<close> when it stops being active. The code: at limit 1, \<open>Push(A)\<close> then
  \<open>Push(B)\<close> mounts A, evicts it without an \<open>Unmount\<close> and mounts B; both pages are
  then mounted and not unmounted. For limits from 2 to \<open>2^63 - 1\<close> the property holds
  (lemmas \<open>do_calls_exclusive\<close> and \<open>exclusive_at_most_one\<close> above).
\<close>

theorem Push_limit_1_two_pages_mounted:
  "map_sum id (\<lambda>(r, tr). (pageHistory r, tr, live tr 0, live tr 1))
     (do_calls [CallPush (Some 0), CallPush (Some 1)] (NewRouter [WithHistory 1], []))
   = Inr ([Some 1], [Mount 0, Mount 1], 1, 1)"
  by (simp add: Push_eq NewRouter_def WithHistory_def DefaultHistory_def current_def)

subsection \<open>Dispatch on a nil page\<close>

text \<open>
  C6. Each of the four dispatch functions \<open>mountPage\<close>, \<open>unmountPage\<close>, \<open>updatePage\<close> and
  \<open>drawPage\<close>, given the nil page, returns without a fault and leaves the router and the
  trace as they were: no method of any page is called.
\<close>

theorem dispatch_nil_noop:
  "mountPage None s = s \<and> unmountPage None s = s
   \<and> updatePage prog None s = Inr s \<and> drawPage None s = s"
  by (cases s) simp

subsection \<open>What one iteration of Run draws\<close>

lemma drawPage_eq: "drawPage (Some p) (r, tr) = (r, tr @ [Draw p])"
  by simp

lemma Run_frame_Some:
  "Run_frame prog (Some p) s =
     (case updatePage prog (Some p) s of
        Inl f \<Rightarrow> Inl f
      | Inr (r', tr') \<Rightarrow> Inr (r', tr' @ [BeginDrawing, Draw p, EndDrawing]))"
  by (simp add: Run_frame_def split: sum.splits)

lemma lifecycle_mounts [simp]: "list_all is_lifecycle (mounts page)"
  by (cases page) simp_all

lemma lifecycle_unmounts [simp]: "list_all is_lifecycle (unmounts page)"
  by (cases page) simp_all

lemma Push_trace:
  assumes "Push page (r, tr) = Inr (r', tr')"
  shows "\<exists>evs. tr' = tr @ evs \<and> list_all is_lifecycle evs"
  using assms by (auto simp add: Push_eq split: if_splits)

lemma Pop_trace: "\<exists>evs. snd (snd (Pop (r, tr))) = tr @ evs \<and> list_all is_lifecycle evs"
proof -
  consider "pageHistory r = []" | x where "pageHistory r = [x]"
    | ys y x where "pageHistory r = ys @ [y, x]"
    using list_shape [of "pageHistory r"] by blast
  then show ?thesis
    by cases (simp_all add: Pop_Nil Pop_single Pop_more)
qed

lemma do_call_trace:
  assumes "do_call c (r, tr) = Inr (r', tr')"
  shows "\<exists>evs. tr' = tr @ evs \<and> list_all is_lifecycle evs"
proof (cases c)
  case (CallPush page)
  with assms show ?thesis using Push_trace by simp
next
  case CallPop
  with assms Pop_trace [of r tr] show ?thesis by auto
next
  case (CallCtxSetValue key val)
  with assms show ?thesis by auto
qed

lemma do_calls_trace:
  assumes "do_calls cs (r, tr) = Inr (r', tr')"
  shows "\<exists>evs. tr' = tr @ evs \<and> list_all is_lifecycle evs"
  using assms
proof (induction cs arbitrary: r tr)
  case Nil
  then show ?case by simp
next
  case (Cons c cs)
  from Cons.prems obtain r1 tr1 where
    c: "do_call c (r, tr) = Inr (r1, tr1)" and cs: "do_calls cs (r1, tr1) = Inr (r', tr')"
    by (auto split: sum.splits)
  from do_call_trace [OF c] obtain evs1 where e1: "tr1 = tr @ evs1" "list_all is_lifecycle evs1"
    by blast
  from Cons.IH [OF cs] obtain evs2 where e2: "tr' = tr1 @ evs2" "list_all is_lifecycle evs2"
    by blast
  from e1 e2 have "tr' = tr @ (evs1 @ evs2) \<and> list_all is_lifecycle (evs1 @ evs2)"
    by simp
  then show ?case by blast
qed

lemma lifecycle_not_Draw: "list_all is_lifecycle evs \<Longrightarrow> filter is_Draw evs = []"
proof (induction evs)
  case Nil
  then show ?case by simp
next
  case (Cons e evs)
  then show ?case by (cases e) simp_all
qed

text \<open>For a limit from 1 to \<open>2^63 - 1\<close> no call of the router panics, so every \<open>Update\<close>
  returns.\<close>

lemma Pop_history: "history (fst (snd (Pop (r, tr)))) = history r"
proof -
  consider "pageHistory r = []" | x where "pageHistory r = [x]"
    | ys y x where "pageHistory r = ys @ [y, x]"
    using list_shape [of "pageHistory r"] by blast
  then show ?thesis
    by cases (simp_all add: Pop_Nil Pop_single Pop_more)
qed

lemma do_call_completes:
  assumes "0 < sint (history r)"
  shows "\<exists>r' tr'. do_call c (r, tr) = Inr (r', tr') \<and> history r' = history r"
proof (cases c)
  case (CallPush page)
  with assms show ?thesis by (auto simp add: Push_eq)
next
  case CallPop
  with Pop_history [of r tr] show ?thesis
    by (cases "Pop (r, tr)") auto
next
  case (CallCtxSetValue key val)
  then show ?thesis by (simp add: CtxSetValue_def)
qed

lemma do_calls_completes:
  assumes "0 < sint (history r)"
  shows "\<exists>s'. do_calls cs (r, tr) = Inr s'"
  using assms
proof (induction cs arbitrary: r tr)
  case Nil
  then show ?case by simp
next
  case (Cons c cs)
  from do_call_completes [OF Cons.prems, of c tr]
  obtain r' tr' where c: "do_call c (r, tr) = Inr (r', tr')" "history r' = history r"
    by blast
  with Cons.prems have "0 < sint (history r')" by simp
  from Cons.IH [OF this, of tr'] c(1) show ?case by simp
qed

lemma updatePage_completes:
  assumes "0 < sint (history r)"
  shows "\<exists>s'. updatePage prog page (r, tr) = Inr s'"
  using do_calls_completes [OF assms] by (cases page) simp_all

text \<open>
  C7. When the \<open>Update\<close> of the page \<open>p\<close> that an iteration of \<open>Run\<close> took as its current
  page returns, whatever calls of \<open>Push\<close>, \<open>Pop\<close> and \<open>CtxSetValue\<close> it made: the rest of
  the iteration completes and draws \<open>p\<close>, between the drawing brackets, and no other page
  is drawn in the iteration. For the page resolved by \<open>current\<close> this is the whole
  iteration, and the router it leaves to the next iteration is the one \<open>Update\<close> left, so
  the changed history is what the next iteration resolves its current page from.
\<close>

theorem Run_iteration_draws_resolved_page:
  assumes "updatePage prog (Some p) (r, tr) = Inr (r', tr')"
  shows "Run_frame prog (Some p) (r, tr) = Inr (r', tr' @ [BeginDrawing, Draw p, EndDrawing])
     \<and> filter is_Draw (drop (length tr) (tr' @ [BeginDrawing, Draw p, EndDrawing])) = [Draw p]
     \<and> (current r = Some p \<longrightarrow>
          Run_iteration prog (r, tr) = Inr (r', tr' @ [BeginDrawing, Draw p, EndDrawing])
          \<and> Run prog ((False, False) # polls) (r, tr)
              = Run prog polls (r', tr' @ [BeginDrawing, Draw p, EndDrawing]))"
proof -
  have fr: "Run_frame prog (Some p) (r, tr) = Inr (r', tr' @ [BeginDrawing, Draw p, EndDrawing])"
    using assms by (simp add: Run_frame_Some)
  have it: "Run_iteration prog (r, tr) = Inr (r', tr' @ [BeginDrawing, Draw p, EndDrawing])"
    if "current r = Some p"
    using that fr by (simp add: Run_iteration_def)
  from assms have "do_calls (prog p (r, tr)) (r, tr @ [Update p]) = Inr (r', tr')"
    by simp
  from do_calls_trace [OF this] obtain evs where
    evs: "tr' = tr @ Update p # evs" "list_all is_lifecycle evs"
    by auto
  have "filter is_Draw (drop (length tr) (tr' @ [BeginDrawing, Draw p, EndDrawing])) = [Draw p]"
    using evs by (simp add: lifecycle_not_Draw)
  with fr it show ?thesis by simp
qed

theorem Run_iteration_draws_resolved_page_witness:
  "current ((NewRouter [])\<lparr>pageHistory := [Some 0]\<rparr>) = Some 0
   \<and> updatePage (\<lambda>p s. if p = 0 then [CallPush (Some 1)] else []) (Some 0)
        ((NewRouter [])\<lparr>pageHistory := [Some 0]\<rparr>, [Mount 0])
      = Inr ((NewRouter [])\<lparr>pageHistory := [Some 0, Some 1]\<rparr>,
             [Mount 0, Update 0, Unmount 0, Mount 1])
   \<and> Run_iteration (\<lambda>p s. if p = 0 then [CallPush (Some 1)] else [])
        ((NewRouter [])\<lparr>pageHistory := [Some 0]\<rparr>, [Mount 0])
      = Inr ((NewRouter [])\<lparr>pageHistory := [Some 0, Some 1]\<rparr>,
             [Mount 0, Update 0, Unmount 0, Mount 1, BeginDrawing, Draw 0, EndDrawing])
   \<and> Run (\<lambda>p s. if p = 0 then [CallPush (Some 1)] else []) [(False, False), (False, False)]
        ((NewRouter [])\<lparr>pageHistory := [Some 0]\<rparr>, [Mount 0])
      = Inr (False, (NewRouter [])\<lparr>pageHistory := [Some 0, Some 1]\<rparr>,
             [Mount 0, Update 0, Unmount 0, Mount 1, BeginDrawing, Draw 0, EndDrawing,
              Update 1, BeginDrawing, Draw 1, EndDrawing])"
proof -
  let ?prog = "\<lambda>(p :: nat) (s :: state). if p = 0 then [CallPush (Some 1)] else []"
  let ?r = "(NewRouter [])\<lparr>pageHistory := [Some 0]\<rparr>"
  have c: "current ?r = Some 0"
    by (simp add: current_def)
  have u: "updatePage ?prog (Some 0) (?r, [Mount 0])
      = Inr ((NewRouter [])\<lparr>pageHistory := [Some 0, Some 1]\<rparr>,
             [Mount 0, Update 0, Unmount 0, Mount 1])"
    by (simp add: Push_eq NewRouter_def DefaultHistory_def current_def)
  show ?thesis
    using c u Run_iteration_draws_resolved_page [OF u, of "[(False, False)]"]
    by (simp add: Run_iteration_def Run_frame_Some current_def)
qed

subsection \<open>The default page\<close>

lemma current_None_drop:
  assumes "current r = None"
  shows "current (r\<lparr>pageHistory := drop 1 (pageHistory r)\<rparr>) = None"
proof (cases "pageHistory r")
  case Nil
  then show ?thesis by (simp add: current_def)
next
  case (Cons x xs)
  with assms show ?thesis
    by (cases xs) (simp_all add: current_def)
qed

lemma Push_without_current:
  assumes "0 < sint (history r)" and "current r = None"
  shows "Push page (r, tr)
     = Inr (r\<lparr>pageHistory :=
                 (if sint (history r) \<le> int (length (pageHistory r))
                  then drop 1 (pageHistory r) else pageHistory r) @ [page]\<rparr>,
            tr @ mounts page)"
proof -
  have "current (r\<lparr>pageHistory :=
                 (if sint (history r) \<le> int (length (pageHistory r))
                  then drop 1 (pageHistory r) else pageHistory r)\<rparr>) = None"
    using assms(2) current_None_drop [OF assms(2)] by simp
  moreover have "\<not> (sint (history r) \<le> int (length (pageHistory r)) \<and> pageHistory r = [])"
    using assms(1) by auto
  ultimately show ?thesis
    by (simp add: Push_eq)
qed

lemma Run_frame_idle:
  "Run_frame (\<lambda>p s. []) (Some d) (r, tr)
     = Inr (r, tr @ [Update d, BeginDrawing, Draw d, EndDrawing])"
  by (simp add: Run_frame_Some)

lemma Run_idle:
  assumes "current r = Some d"
  shows "Run (\<lambda>p s. []) (replicate n (False, False)) (r, tr)
     = Inr (False, r, tr @ concat (replicate n [Update d, BeginDrawing, Draw d, EndDrawing]))"
proof (induction n arbitrary: tr)
  case 0
  then show ?case by simp
next
  case (Suc n)
  have "Run_iteration (\<lambda>p s. []) (r, tr)
      = Inr (r, tr @ [Update d, BeginDrawing, Draw d, EndDrawing])"
    using assms by (simp add: Run_iteration_def Run_frame_idle)
  then show ?case
    by (simp add: Suc.IH)
qed

text \<open>
  C8. The claim: \<open>Run\<close> pushes the default page once when it finds the history empty,
  and not again while the history remains non-empty. The second part fails when the
  last entry of the history is nil: \<open>current\<close> answers nil as for an empty history, and
  \<open>Run\<close> pushes the default page again although the history is not empty. Here the
  default page 0 pushes nil in its first \<open>Update\<close>; the second iteration finds the
  history \<open>[0, nil]\<close> and pushes page 0 a second time.
\<close>

theorem Run_pushes_default_onto_nil_top:
  "Run_iteration (\<lambda>p s. if length (pageHistory (fst s)) = 1 then [CallPush None] else [])
      (NewRouter [WithDefaultPage (Some 0)], [])
     = Inr ((NewRouter [WithDefaultPage (Some 0)])\<lparr>pageHistory := [Some 0, None]\<rparr>,
            [Mount 0, Update 0, Unmount 0, BeginDrawing, Draw 0, EndDrawing])
   \<and> Run_iteration (\<lambda>p s. if length (pageHistory (fst s)) = 1 then [CallPush None] else [])
      ((NewRouter [WithDefaultPage (Some 0)])\<lparr>pageHistory := [Some 0, None]\<rparr>,
       [Mount 0, Update 0, Unmount 0, BeginDrawing, Draw 0, EndDrawing])
     = Inr ((NewRouter [WithDefaultPage (Some 0)])\<lparr>pageHistory := [Some 0, None, Some 0]\<rparr>,
            [Mount 0, Update 0, Unmount 0, BeginDrawing, Draw 0, EndDrawing,
             Mount 0, Update 0, BeginDrawing, Draw 0, EndDrawing])"
  by (simp add: Run_iteration_def Run_frame_Some Push_eq NewRouter_def WithDefaultPage_def
      DefaultHistory_def current_def)

text \<open>
  C8, amended. With a default page \<open>d\<close> configured and a limit from 1 to \<open>2^63 - 1\<close>: an
  iteration of \<open>Run\<close> that resolves no current page (the history is empty or its last
  entry is nil) pushes \<open>d\<close> once, which mounts it once, and goes on with \<open>d\<close> as the
  current page; an iteration that resolves a current page pushes nothing before it
  updates that page. So when no page navigates, any number of iterations from the empty
  history mount the default page once and leave it the only entry.
\<close>

theorem Run_iteration_default_once:
  assumes "0 < sint (history r)" and "defaultPage r = Some d"
  shows "(current r = None \<longrightarrow>
            Run_iteration prog (r, tr)
              = Run_frame prog (Some d)
                  (r\<lparr>pageHistory :=
                        (if sint (history r) \<le> int (length (pageHistory r))
                         then drop 1 (pageHistory r) else pageHistory r) @ [Some d]\<rparr>,
                   tr @ [Mount d]))
     \<and> (current r \<noteq> None \<longrightarrow>
            Run_iteration prog (r, tr) = Run_frame prog (current r) (r, tr))
     \<and> (pageHistory r = [] \<longrightarrow>
            Run (\<lambda>p s. []) (replicate (Suc n) (False, False)) (r, tr)
              = Inr (False, r\<lparr>pageHistory := [Some d]\<rparr>,
                     tr @ Mount d
                        # concat (replicate (Suc n) [Update d, BeginDrawing, Draw d, EndDrawing])))"
proof -
  have a: "Run_iteration prog (r, tr)
              = Run_frame prog (Some d)
                  (r\<lparr>pageHistory :=
                        (if sint (history r) \<le> int (length (pageHistory r))
                         then drop 1 (pageHistory r) else pageHistory r) @ [Some d]\<rparr>,
                   tr @ [Mount d])" if "current r = None" for prog
    using assms(2) that by (simp add: Run_iteration_def Push_without_current [OF assms(1) that])
  have b: "Run_iteration prog (r, tr) = Run_frame prog (current r) (r, tr)"
    if "current r \<noteq> None"
    using that by (auto simp add: Run_iteration_def Let_def)
  have c: "Run (\<lambda>p s. []) (replicate (Suc n) (False, False)) (r, tr)
              = Inr (False, r\<lparr>pageHistory := [Some d]\<rparr>,
                     tr @ Mount d
                        # concat (replicate (Suc n) [Update d, BeginDrawing, Draw d, EndDrawing]))"
    if e: "pageHistory r = []"
  proof -
    have cur: "current r = None"
      using e by (simp add: current_def)
    have full: "\<not> sint (history r) \<le> int (length (pageHistory r))"
      using assms(1) e by simp
    have "Run_iteration (\<lambda>p s. []) (r, tr)
        = Inr (r\<lparr>pageHistory := [Some d]\<rparr>,
               tr @ [Mount d, Update d, BeginDrawing, Draw d, EndDrawing])"
      using e full by (simp add: a [OF cur] Run_frame_idle)
    moreover have "current (r\<lparr>pageHistory := [Some d]\<rparr>) = Some d"
      by (simp add: current_def)
    ultimately show ?thesis
      by (simp add: Run_idle)
  qed
  from a b c show ?thesis by blast
qed

theorem Run_iteration_default_once_witness:
  "0 < sint (history (NewRouter [WithDefaultPage (Some 0)]))
   \<and> defaultPage (NewRouter [WithDefaultPage (Some 0)]) = Some 0
   \<and> current (NewRouter [WithDefaultPage (Some 0)]) = None
   \<and> Run_iteration (\<lambda>p s. []) (NewRouter [WithDefaultPage (Some 0)], [])
        = Inr ((NewRouter [WithDefaultPage (Some 0)])\<lparr>pageHistory := [Some 0]\<rparr>,
               [Mount 0, Update 0, BeginDrawing, Draw 0, EndDrawing])
   \<and> Run (\<lambda>p s. []) (replicate (Suc 2) (False, False)) (NewRouter [WithDefaultPage (Some 0)], [])
        = Inr (False, (NewRouter [WithDefaultPage (Some 0)])\<lparr>pageHistory := [Some 0]\<rparr>,
               [Mount 0, Update 0, BeginDrawing, Draw 0, EndDrawing,
                Update 0, BeginDrawing, Draw 0, EndDrawing,
                Update 0, BeginDrawing, Draw 0, EndDrawing])"
proof -
  let ?r = "NewRouter [WithDefaultPage (Some 0)]"
  have h: "0 < sint (history ?r)"
    by (simp add: NewRouter_def WithDefaultPage_def DefaultHistory_def)
  have d: "defaultPage ?r = Some 0"
    by (simp add: NewRouter_def WithDefaultPage_def)
  have e: "pageHistory ?r = []"
    by (simp add: NewRouter_def WithDefaultPage_def)
  have c: "current ?r = None"
    by (simp add: current_def e)
  note t = Run_iteration_default_once [OF h d, of "\<lambda>p s. []" "[]" 2]
  have full: "\<not> sint (history ?r) \<le> int (length (pageHistory ?r))"
    using h e by simp
  from t c have "Run_iteration (\<lambda>p s. []) (?r, [])
      = Run_frame (\<lambda>p s. []) (Some 0)
          (?r\<lparr>pageHistory :=
                (if sint (history ?r) \<le> int (length (pageHistory ?r))
                 then drop 1 (pageHistory ?r) else pageHistory ?r) @ [Some 0]\<rparr>,
           [] @ [Mount 0])"
    by blast
  then have r1: "Run_iteration (\<lambda>p s. []) (?r, [])
      = Inr (?r\<lparr>pageHistory := [Some 0]\<rparr>,
             [Mount 0, Update 0, BeginDrawing, Draw 0, EndDrawing])"
    using full by (simp add: Run_frame_idle e)
  from t e have "Run (\<lambda>p s. []) (replicate (Suc 2) (False, False)) (?r, [])
      = Inr (False, ?r\<lparr>pageHistory := [Some 0]\<rparr>,
             [] @ Mount 0 # concat (replicate (Suc 2) [Update 0, BeginDrawing, Draw 0, EndDrawing]))"
    by blast
  moreover have "[] @ Mount 0 # concat (replicate (Suc 2) [Update 0, BeginDrawing, Draw 0, EndDrawing])
      = [Mount 0, Update 0, BeginDrawing, Draw 0, EndDrawing,
         Update 0, BeginDrawing, Draw 0, EndDrawing,
         Update 0, BeginDrawing, Draw 0, EndDrawing]"
    by (simp add: numeral_2_eq_2)
  ultimately have r3: "Run (\<lambda>p s. []) (replicate (Suc 2) (False, False)) (?r, [])
      = Inr (False, ?r\<lparr>pageHistory := [Some 0]\<rparr>,
             [Mount 0, Update 0, BeginDrawing, Draw 0, EndDrawing,
              Update 0, BeginDrawing, Draw 0, EndDrawing,
              Update 0, BeginDrawing, Draw 0, EndDrawing])"
    by (simp only:)
  from h d c r1 r3 show ?thesis by blast
qed

subsection \<open>The shared context\<close>

lemma CtxValue_CtxSetValue:
  "CtxValue k (CtxSetValue key val r) = (if key = k then val else CtxValue k r)"
  by (simp add: CtxValue_def CtxSetValue_def)

lemma CtxValue_CtxSetValues:
  "CtxValue k (CtxSetValues kvs r)
     = (case map_of (rev kvs) k of None \<Rightarrow> CtxValue k r | Some v \<Rightarrow> v)"
proof (induction kvs arbitrary: r)
  case Nil
  then show ?case by simp
next
  case (Cons kv kvs)
  obtain key val where kv: "kv = (key, val)" by (cases kv)
  show ?case
    by (simp add: kv Cons.IH CtxValue_CtxSetValue map_add_def split: option.splits)
qed

lemma map_of_rev_later:
  assumes "k \<notin> fst ` set later"
  shows "map_of (rev (earlier @ (k, v) # later)) k = Some v"
proof -
  have "map_of (rev later) k = None"
    using assms by (simp add: map_of_eq_None_iff)
  then show ?thesis
    by (simp add: map_add_def)
qed

text \<open>
  C9. After any sequence of \<open>CtxSetValue\<close> calls, \<open>CtxValue\<close> of a key answers the value
  of the last call that set this key; for a key that no call set it answers what the
  context the router started with answers, which is nil for a key that context does not
  bind, as in the background context of a new router.
\<close>

theorem CtxValue_last_write_wins:
  "(k \<notin> fst ` set later \<longrightarrow>
      CtxValue k (CtxSetValues (earlier @ (k, v) # later) r) = v)
   \<and> (k \<notin> fst ` set kvs \<longrightarrow> CtxValue k (CtxSetValues kvs r) = Value (ctx r) k)
   \<and> (k \<notin> fst ` set kvs \<longrightarrow> CtxValue k (CtxSetValues kvs (NewRouter [])) = None)"
proof -
  have none: "map_of (rev kvs) k = None" if "k \<notin> fst ` set kvs"
    using that by (simp add: map_of_eq_None_iff)
  have "CtxValue k (CtxSetValues (earlier @ (k, v) # later) r) = v" if "k \<notin> fst ` set later"
    by (simp only: CtxValue_CtxSetValues map_of_rev_later [OF that] option.case)
  moreover have "CtxValue k (CtxSetValues kvs r') = Value (ctx r') k" if "k \<notin> fst ` set kvs" for r'
    by (simp add: CtxValue_CtxSetValues none [OF that]) (simp add: CtxValue_def)
  moreover have "Value (ctx (NewRouter [])) k = None"
    by (simp add: NewRouter_def)
  ultimately show ?thesis by simp
qed

theorem CtxValue_last_write_wins_witness:
  "''a'' \<notin> fst ` set [(''b'', Some (2::nat))]
   \<and> CtxValue ''a'' (CtxSetValues [(''a'', Some 1), (''a'', Some 3), (''b'', Some 2)] (NewRouter [])) = Some 3
   \<and> ''c'' \<notin> fst ` set [(''a'', Some (1::nat)), (''a'', Some 3), (''b'', Some 2)]
   \<and> CtxValue ''c'' (CtxSetValues [(''a'', Some 1), (''a'', Some 3), (''b'', Some 2)] (NewRouter [])) = None"
  using CtxValue_last_write_wins [of "''a''" "[(''b'', Some 2)]" "[(''a'', Some 1)]" "Some 3" "NewRouter []"
      "[(''b'', Some 2)]"]
    CtxValue_last_write_wins [of "''c''" "[]" "[]" None "NewRouter []"
      "[(''a'', Some 1), (''a'', Some 3), (''b'', Some 2)]"]
  by (simp add: CtxValue_def CtxSetValue_def NewRouter_def)

subsection \<open>Pushing nil\<close>

text \<open>
  C10. The claim: with room under the limit \<open>Push(nil)\<close> appends nil without a fault,
  \<open>current\<close> then answers nil as for an empty history, and \<open>Run\<close> pushes the default page
  on top of the nil entry. The last part fails at limit 1: the nil entry fills the
  history, so the \<open>Push\<close> of the default page evicts it, and the history is the default
  page alone.
\<close>

theorem Push_nil_limit_1_default_replaces_nil:
  "Push None (NewRouter [WithHistory 1, WithDefaultPage (Some 0)], [])
     = Inr ((NewRouter [WithHistory 1, WithDefaultPage (Some 0)])\<lparr>pageHistory := [None]\<rparr>, [])
   \<and> Run_iteration (\<lambda>p s. [])
       ((NewRouter [WithHistory 1, WithDefaultPage (Some 0)])\<lparr>pageHistory := [None]\<rparr>, [])
     = Inr ((NewRouter [WithHistory 1, WithDefaultPage (Some 0)])\<lparr>pageHistory := [Some 0]\<rparr>,
            [Mount 0, Update 0, BeginDrawing, Draw 0, EndDrawing])"
  by (simp add: Run_iteration_def Run_frame_Some Push_eq NewRouter_def WithDefaultPage_def
      WithHistory_def current_def)

text \<open>Room under the limit, as \<open>Push\<close> tests it, is room under a limit from 1 to
  \<open>2^63 - 1\<close>. A limit from \<open>2^63\<close> on is read by \<open>int(r.history)\<close> as a negative number:
  every history counts as full, and \<open>Push\<close> on the empty history panics.\<close>

lemma room_iff:
  "int (length ph) < sint (h :: 64 word) \<longleftrightarrow> 0 < sint h \<and> length ph < unat h"
proof (cases "0 \<le> sint h")
  case True
  then have "sint h = int (unat h)" by (rule sint_nonneg_unat)
  then show ?thesis by linarith
next
  case False
  then show ?thesis by linarith
qed

lemma Push_nil_limit_2p63_faults:
  "Push None (NewRouter [WithHistory (2 ^ 63)], tr) = Inl SliceBoundsOutOfRange"
  by (simp add: Push_eq NewRouter_def WithHistory_def)

text \<open>
  C10, amended. For a limit from 1 to \<open>2^63 - 1\<close> and a history shorter than the limit,
  \<open>Push(nil)\<close> completes: it unmounts the current page if there is one, appends nil and
  mounts nothing. \<open>current\<close> then answers nil, as it does for the empty history, and the
  next iteration of \<open>Run\<close> does what it does for an empty history: nothing without a
  default page, and with a default page \<open>d\<close> it pushes \<open>d\<close>. The push puts \<open>d\<close> on top of
  the nil entry, after evicting the oldest entry if the history is full, except at
  limit 1, where the evicted entry is the nil entry itself and \<open>d\<close> is left alone in the
  history. Nothing is said about limit 0 and limits from \<open>2^63\<close> on.
\<close>

theorem Push_nil_then_Run:
  assumes "0 < sint (history r)" and "length (pageHistory r) < unat (history r)"
  shows "Push None (r, tr)
           = Inr (r\<lparr>pageHistory := pageHistory r @ [None]\<rparr>, tr @ unmounts (current r))
     \<and> current (r\<lparr>pageHistory := pageHistory r @ [None]\<rparr>) = None
     \<and> current (r\<lparr>pageHistory := []\<rparr>) = None
     \<and> (defaultPage r = None \<longrightarrow>
          Run_iteration prog (r\<lparr>pageHistory := pageHistory r @ [None]\<rparr>, tr')
            = Inr (r\<lparr>pageHistory := pageHistory r @ [None]\<rparr>, tr'))
     \<and> (defaultPage r = Some d \<longrightarrow>
          Run_iteration prog (r\<lparr>pageHistory := pageHistory r @ [None]\<rparr>, tr')
            = Run_frame prog (Some d)
                (r\<lparr>pageHistory :=
                      (if sint (history r) = 1 then []
                       else if sint (history r) = int (length (pageHistory r)) + 1
                       then drop 1 (pageHistory r) @ [None]
                       else pageHistory r @ [None]) @ [Some d]\<rparr>,
                 tr' @ [Mount d]))"
proof -
  have room: "int (length (pageHistory r)) < sint (history r)"
    using assms by (simp add: room_iff)
  have p: "Push None (r, tr)
           = Inr (r\<lparr>pageHistory := pageHistory r @ [None]\<rparr>, tr @ unmounts (current r))"
    using room by (simp add: Push_eq)
  have n: "Run_iteration prog (r\<lparr>pageHistory := pageHistory r @ [None]\<rparr>, tr')
            = Inr (r\<lparr>pageHistory := pageHistory r @ [None]\<rparr>, tr')"
    if "defaultPage r = None"
    using that by (simp add: Run_iteration_def)
  have d: "Run_iteration prog (r\<lparr>pageHistory := pageHistory r @ [None]\<rparr>, tr')
            = Run_frame prog (Some d)
                (r\<lparr>pageHistory :=
                      (if sint (history r) = 1 then []
                       else if sint (history r) = int (length (pageHistory r)) + 1
                       then drop 1 (pageHistory r) @ [None]
                       else pageHistory r @ [None]) @ [Some d]\<rparr>,
                 tr' @ [Mount d])"
    if dp: "defaultPage r = Some d"
  proof -
    let ?r1 = "r\<lparr>pageHistory := pageHistory r @ [None]\<rparr>"
    have pos: "0 < sint (history ?r1)"
      using room by simp
    have cur: "current ?r1 = None"
      by simp
    have dp1: "defaultPage ?r1 = Some d"
      using dp by simp
    have "Run_iteration prog (?r1, tr')
        = Run_frame prog (Some d)
            (?r1\<lparr>pageHistory :=
                (if sint (history ?r1) \<le> int (length (pageHistory ?r1))
                 then drop 1 (pageHistory ?r1) else pageHistory ?r1) @ [Some d]\<rparr>,
             tr' @ [Mount d])"
      using dp1 by (simp add: Run_iteration_def Push_without_current [OF pos cur])
    moreover have "(if sint (history ?r1) \<le> int (length (pageHistory ?r1))
                 then drop 1 (pageHistory ?r1) else pageHistory ?r1)
        = (if sint (history r) = 1 then []
           else if sint (history r) = int (length (pageHistory r)) + 1
           then drop 1 (pageHistory r) @ [None]
           else pageHistory r @ [None])"
      using room by (cases "pageHistory r") auto
    ultimately show ?thesis by simp
  qed
  from p n d show ?thesis by simp
qed

theorem Push_nil_then_Run_witness:
  "0 < sint (history ((NewRouter [WithDefaultPage (Some 0)])\<lparr>pageHistory := [Some 5]\<rparr>))
   \<and> length (pageHistory ((NewRouter [WithDefaultPage (Some 0)])\<lparr>pageHistory := [Some 5]\<rparr>))
     < unat (history ((NewRouter [WithDefaultPage (Some 0)])\<lparr>pageHistory := [Some 5]\<rparr>))
   \<and> defaultPage ((NewRouter [WithDefaultPage (Some 0)])\<lparr>pageHistory := [Some 5]\<rparr>) = Some 0
   \<and> Push None ((NewRouter [WithDefaultPage (Some 0)])\<lparr>pageHistory := [Some 5]\<rparr>, [Mount 5])
       = Inr ((NewRouter [WithDefaultPage (Some 0)])\<lparr>pageHistory := [Some 5, None]\<rparr>,
              [Mount 5, Unmount 5])
   \<and> current ((NewRouter [WithDefaultPage (Some 0)])\<lparr>pageHistory := [Some 5, None]\<rparr>) = None
   \<and> Run_iteration (\<lambda>p s. [])
        ((NewRouter [WithDefaultPage (Some 0)])\<lparr>pageHistory := [Some 5, None]\<rparr>,
         [Mount 5, Unmount 5])
       = Inr ((NewRouter [WithDefaultPage (Some 0)])\<lparr>pageHistory := [Some 5, None, Some 0]\<rparr>,
              [Mount 5, Unmount 5, Mount 0, Update 0, BeginDrawing, Draw 0, EndDrawing])"
proof -
  let ?r = "(NewRouter [WithDefaultPage (Some 0)])\<lparr>pageHistory := [Some 5]\<rparr>"
  have pos: "0 < sint (history ?r)"
    by (simp add: NewRouter_def WithDefaultPage_def DefaultHistory_def)
  have room: "length (pageHistory ?r) < unat (history ?r)"
    by (simp add: NewRouter_def WithDefaultPage_def DefaultHistory_def)
  have d: "defaultPage ?r = Some 0"
    by (simp add: NewRouter_def WithDefaultPage_def)
  show ?thesis
    using pos room d
      Push_nil_then_Run [OF pos room, of "[Mount 5]" "\<lambda>p s. []" "[Mount 5, Unmount 5]" 0]
    by (simp add: Run_frame_idle current_def NewRouter_def WithDefaultPage_def DefaultHistory_def)
qed

end
